theory Spec2Isabelle
  imports Complex_Main "HOL-Library.AList" "HOL-Library.Sublist"
begin

section \<open>JavaScript values and strings\<close>

text \<open>
  The values a caller can hand to the utilities of \<^verbatim>\<open>svgUtils\<close> and
  \<^verbatim>\<open>svgTemplateProcessor\<close>. Strings are lists of 8-bit characters (code units
  below 256); numbers are restricted to the integers and \<^verbatim>\<open>NaN\<close>.
\<close>

datatype jsval = JUndefined | JNull | JBool bool | JNum int | JNaN | JStr string

text \<open>
  The characters matched by \<^verbatim>\<open>\s\<close> and stripped by \<^verbatim>\<open>trim()\<close>, within the
  8-bit range: TAB, LF, VT, FF, CR, SPACE and NBSP.
\<close>

definition isWhiteSpace :: "char \<Rightarrow> bool" where
  "isWhiteSpace c =
     (c \<in> set [CHR 0x09, CHR 0x0A, CHR 0x0B, CHR 0x0C, CHR 0x0D, CHR 0x20, CHR 0xA0])"

text \<open>The characters matched by \<^verbatim>\<open>\d\<close>.\<close>

definition isDigit :: "char \<Rightarrow> bool" where
  "isDigit c = (48 \<le> (of_char c :: nat) \<and> (of_char c :: nat) \<le> 57)"

definition trimStart :: "string \<Rightarrow> string" where
  "trimStart s = dropWhile isWhiteSpace s"

definition trimEnd :: "string \<Rightarrow> string" where
  "trimEnd s = rev (dropWhile isWhiteSpace (rev s))"

definition trim :: "string \<Rightarrow> string" where
  "trim s = trimEnd (trimStart s)"


section \<open>parseResolution\<close>

text \<open>
  \<^verbatim>\<open>Number(match[i])\<close> on a string of decimal digits: the decimal value, rounded to
  the nearest double (ties to even). \<open>None\<close> stands for \<^verbatim>\<open>Infinity\<close>, which
  \<^verbatim>\<open>Number.isFinite\<close> rejects. Every finite double that such a string can
  denote is a natural number.
\<close>

definition digitsValue :: "string \<Rightarrow> nat" where
  "digitsValue ds = foldl (\<lambda>acc c. 10 * acc + (of_char c - 48)) 0 ds"

fun bitLength :: "nat \<Rightarrow> nat" where
  "bitLength n = (if n = 0 then 0 else Suc (bitLength (n div 2)))"

declare bitLength.simps [simp del]

definition roundDouble :: "nat \<Rightarrow> nat option" where
  "roundDouble n =
     (if n < 2 ^ 53 then Some n
      else let e = bitLength n - 53;
               q = n div 2 ^ e;
               r = n mod 2 ^ e;
               q' = (if 2 ^ e < 2 * r \<or> (2 * r = 2 ^ e \<and> odd q) then q + 1 else q);
               v = q' * 2 ^ e
           in if 2 ^ 1024 \<le> v then None else Some v)"

definition toNumber :: "string \<Rightarrow> nat option" where
  "toNumber ds = roundDouble (digitsValue ds)"

text \<open>
  The regular expression \<^verbatim>\<open>/^(\d+)\s*x\s*(\d+)$/i\<close>. Each starred or plussed class
  is followed by a character outside the class, so the greedy match is the only one; the
  result is the pair of capture groups.
\<close>

definition matchResolution :: "string \<Rightarrow> (string \<times> string) option" where
  "matchResolution t =
     (let d1 = takeWhile isDigit t;
          r2 = dropWhile isWhiteSpace (dropWhile isDigit t)
      in case r2 of
           [] \<Rightarrow> None
         | c # r3 \<Rightarrow>
             (let r4 = dropWhile isWhiteSpace r3;
                  d2 = takeWhile isDigit r4
              in if (c = CHR ''x'' \<or> c = CHR ''X'') \<and> d1 \<noteq> [] \<and> d2 \<noteq> []
                    \<and> dropWhile isDigit r4 = []
                 then Some (d1, d2) else None))"

definition parseResolution :: "jsval \<Rightarrow> nat \<times> nat" where
  "parseResolution resolution =
     (case resolution of
        JStr s \<Rightarrow>
          (case matchResolution (trim s) of
             None \<Rightarrow> (1920, 1080)
           | Some (m1, m2) \<Rightarrow>
               (case (toNumber m1, toNumber m2) of
                  (Some parsedWidth, Some parsedHeight) \<Rightarrow>
                    if 0 < parsedWidth \<and> 0 < parsedHeight
                    then (parsedWidth, parsedHeight) else (1920, 1080)
                | _ \<Rightarrow> (1920, 1080)))
      | _ \<Rightarrow> (1920, 1080))"

text \<open>
  The resolution string as the specification words it: a positive integer, optional
  whitespace, \<open>x\<close> in either case, optional whitespace, a positive integer, and nothing
  else; the result is the two integers themselves.
\<close>

definition specResolution :: "jsval \<Rightarrow> nat \<times> nat" where
  "specResolution v =
     (case v of
        JStr s \<Rightarrow>
          (case matchResolution s of
             None \<Rightarrow> (1920, 1080)
           | Some (m1, m2) \<Rightarrow>
               if 0 < digitsValue m1 \<and> 0 < digitsValue m2
               then (digitsValue m1, digitsValue m2) else (1920, 1080))
      | _ \<Rightarrow> (1920, 1080))"

text \<open>
  The strings that \<open>parseResolution\<close> accepts, stated as a decomposition: whitespace,
  digits, whitespace, \<open>x\<close> or \<open>X\<close>, whitespace, digits, whitespace, where both digit
  strings denote finite positive doubles \<open>w\<close> and \<open>h\<close>.
\<close>

definition resolutionForm :: "string \<Rightarrow> nat \<Rightarrow> nat \<Rightarrow> bool" where
  "resolutionForm s w h =
     (\<exists>ws1 d1 ws2 c ws3 d2 ws4.
        s = ws1 @ d1 @ ws2 @ [c] @ ws3 @ d2 @ ws4
        \<and> list_all isWhiteSpace ws1 \<and> list_all isWhiteSpace ws2
        \<and> list_all isWhiteSpace ws3 \<and> list_all isWhiteSpace ws4
        \<and> d1 \<noteq> [] \<and> list_all isDigit d1 \<and> d2 \<noteq> [] \<and> list_all isDigit d2
        \<and> (c = CHR ''x'' \<or> c = CHR ''X'')
        \<and> toNumber d1 = Some w \<and> toNumber d2 = Some h \<and> 0 < w \<and> 0 < h)"

lemma digit_not_space: "isDigit c \<Longrightarrow> \<not> isWhiteSpace c"
  by (auto simp: isDigit_def isWhiteSpace_def)

lemma space_not_digit: "isWhiteSpace c \<Longrightarrow> \<not> isDigit c"
  using digit_not_space by blast

lemma x_not_digit: "c = CHR ''x'' \<or> c = CHR ''X'' \<Longrightarrow> \<not> isDigit c"
  by (auto simp: isDigit_def)

lemma x_not_space: "c = CHR ''x'' \<or> c = CHR ''X'' \<Longrightarrow> \<not> isWhiteSpace c"
  by (auto simp: isWhiteSpace_def)

lemma list_all_Ball: "list_all P xs = (\<forall>x \<in> set xs. P x)"
  by (simp add: list_all_iff)

lemma takeWhile_all_then_stop:
  "list_all P xs \<Longrightarrow> (ys = [] \<or> \<not> P (hd ys)) \<Longrightarrow> takeWhile P (xs @ ys) = xs"
proof (induction xs)
  case Nil
  then show ?case by (cases ys) auto
next
  case (Cons x xs)
  then show ?case by simp
qed

lemma dropWhile_all_then_stop:
  "list_all P xs \<Longrightarrow> (ys = [] \<or> \<not> P (hd ys)) \<Longrightarrow> dropWhile P (xs @ ys) = ys"
proof (induction xs)
  case Nil
  then show ?case by (cases ys) auto
next
  case (Cons x xs)
  then show ?case by simp
qed

lemma matchResolution_form:
  assumes "list_all isDigit d1" "d1 \<noteq> []" "list_all isWhiteSpace ws2"
    "c = CHR ''x'' \<or> c = CHR ''X''" "list_all isWhiteSpace ws3"
    "list_all isDigit d2" "d2 \<noteq> []"
  shows "matchResolution (d1 @ ws2 @ c # ws3 @ d2) = Some (d1, d2)"
proof -
  have nd: "\<not> isDigit c" and ns: "\<not> isWhiteSpace c"
    using assms(4) x_not_digit x_not_space by blast+
  have stop1: "ws2 @ c # ws3 @ d2 = [] \<or> \<not> isDigit (hd (ws2 @ c # ws3 @ d2))"
    using assms(3) nd by (cases ws2) (auto simp: space_not_digit)
  have t1: "takeWhile isDigit (d1 @ ws2 @ c # ws3 @ d2) = d1"
    using takeWhile_all_then_stop [OF assms(1) stop1] .
  have r1: "dropWhile isDigit (d1 @ ws2 @ c # ws3 @ d2) = ws2 @ c # ws3 @ d2"
    using dropWhile_all_then_stop [OF assms(1) stop1] .
  have r2: "dropWhile isWhiteSpace (ws2 @ c # ws3 @ d2) = c # ws3 @ d2"
    using dropWhile_all_then_stop [OF assms(3), of "c # ws3 @ d2"] ns by simp
  have stop3: "d2 = [] \<or> \<not> isWhiteSpace (hd d2)"
    using assms(6,7) by (cases d2) (auto simp: digit_not_space)
  have r4: "dropWhile isWhiteSpace (ws3 @ d2) = d2"
    using dropWhile_all_then_stop [OF assms(5) stop3] .
  have t2: "takeWhile isDigit d2 = d2" and r5: "dropWhile isDigit d2 = []"
    using assms(6) by (simp_all add: list_all_Ball)
  have "matchResolution (d1 @ ws2 @ c # ws3 @ d2) =
      (if (c = CHR ''x'' \<or> c = CHR ''X'') \<and> d1 \<noteq> [] \<and> d2 \<noteq> [] \<and> dropWhile isDigit d2 = []
       then Some (d1, d2) else None)"
    unfolding matchResolution_def Let_def t1 r1 r2 list.case r4 t2 ..
  then show ?thesis
    using assms(2,4,7) r5 by simp
qed

lemma trimEnd_core:
  assumes "list_all isWhiteSpace ws" "core \<noteq> []" "\<not> isWhiteSpace (last core)"
  shows "trimEnd (core @ ws) = core"
proof -
  have a: "list_all isWhiteSpace (rev ws)"
    using assms(1) by (simp add: list_all_Ball)
  have b: "rev core = [] \<or> \<not> isWhiteSpace (hd (rev core))"
    using assms(2,3) by (simp add: hd_rev)
  have "dropWhile isWhiteSpace (rev ws @ rev core) = rev core"
    using dropWhile_all_then_stop [OF a b] .
  then show ?thesis by (simp add: trimEnd_def)
qed

lemma trim_core:
  assumes "list_all isWhiteSpace ws1" "list_all isWhiteSpace ws4" "core \<noteq> []"
    "\<not> isWhiteSpace (hd core)" "\<not> isWhiteSpace (last core)"
  shows "trim (ws1 @ core @ ws4) = core"
proof -
  have "core @ ws4 = [] \<or> \<not> isWhiteSpace (hd (core @ ws4))"
    using assms(3,4) by simp
  then have "trimStart (ws1 @ core @ ws4) = core @ ws4"
    unfolding trimStart_def using dropWhile_all_then_stop [OF assms(1)] by blast
  then show ?thesis
    by (simp add: trim_def trimEnd_core [OF assms(2,3,5)])
qed

lemma trim_decompose:
  "\<exists>ws1 ws4. s = ws1 @ trim s @ ws4 \<and> list_all isWhiteSpace ws1 \<and> list_all isWhiteSpace ws4"
proof -
  let ?a = "takeWhile isWhiteSpace s"
  let ?m = "dropWhile isWhiteSpace s"
  let ?b = "rev (takeWhile isWhiteSpace (rev ?m))"
  have 1: "s = ?a @ ?m" by simp
  have "?m = rev (dropWhile isWhiteSpace (rev ?m)) @ rev (takeWhile isWhiteSpace (rev ?m))"
    by (metis rev_append rev_rev_ident takeWhile_dropWhile_id)
  then have 2: "?m = trim s @ ?b"
    by (simp add: trim_def trimEnd_def trimStart_def)
  have 3: "list_all isWhiteSpace ?a"
    by (simp add: list_all_Ball) (meson set_takeWhileD)
  have 4: "list_all isWhiteSpace ?b"
    by (simp add: list_all_Ball) (meson set_takeWhileD)
  from 1 2 have "s = ?a @ trim s @ ?b" by simp
  with 3 4 show ?thesis by blast
qed

lemma matchResolution_decompose:
  assumes "matchResolution t = Some (m1, m2)"
  shows "\<exists>ws2 c ws3. t = m1 @ ws2 @ [c] @ ws3 @ m2
           \<and> list_all isWhiteSpace ws2 \<and> list_all isWhiteSpace ws3
           \<and> m1 \<noteq> [] \<and> list_all isDigit m1 \<and> m2 \<noteq> [] \<and> list_all isDigit m2
           \<and> (c = CHR ''x'' \<or> c = CHR ''X'')"
proof -
  let ?r1 = "dropWhile isDigit t"
  let ?r2 = "dropWhile isWhiteSpace ?r1"
  from assms obtain c r3 where r2: "?r2 = c # r3"
    by (cases ?r2) (auto simp: matchResolution_def Let_def)
  let ?r4 = "dropWhile isWhiteSpace r3"
  from assms r2 have c: "c = CHR ''x'' \<or> c = CHR ''X''"
    and m1: "m1 = takeWhile isDigit t" and m1n: "m1 \<noteq> []"
    and m2: "m2 = takeWhile isDigit ?r4" and m2n: "m2 \<noteq> []"
    and r5: "dropWhile isDigit ?r4 = []"
    by (auto simp: matchResolution_def Let_def split: if_splits)
  have "t = m1 @ ?r1" by (simp add: m1)
  moreover have "?r1 = takeWhile isWhiteSpace ?r1 @ c # r3"
    using r2 by (metis takeWhile_dropWhile_id)
  moreover have "r3 = takeWhile isWhiteSpace r3 @ ?r4" by simp
  moreover have "?r4 = m2"
    using r5 m2 by (metis append_Nil2 takeWhile_dropWhile_id)
  ultimately have "t = m1 @ takeWhile isWhiteSpace ?r1 @ [c] @ takeWhile isWhiteSpace r3 @ m2"
    by (metis append_Cons append_Nil)
  moreover have "list_all isWhiteSpace (takeWhile isWhiteSpace ?r1)"
    by (simp add: list_all_Ball) (meson set_takeWhileD)
  moreover have "list_all isWhiteSpace (takeWhile isWhiteSpace r3)"
    by (simp add: list_all_Ball) (meson set_takeWhileD)
  moreover have "list_all isDigit m1"
    unfolding m1 by (simp add: list_all_Ball) (meson set_takeWhileD)
  moreover have "list_all isDigit m2"
    unfolding m2 by (simp add: list_all_Ball) (meson set_takeWhileD)
  ultimately show ?thesis using c m1n m2n by blast
qed

lemma parseResolution_accepts:
  assumes "resolutionForm s w h"
  shows "parseResolution (JStr s) = (w, h)"
proof -
  from assms obtain ws1 d1 ws2 c ws3 d2 ws4 where
    s: "s = ws1 @ d1 @ ws2 @ [c] @ ws3 @ d2 @ ws4"
    and w1: "list_all isWhiteSpace ws1" and w2: "list_all isWhiteSpace ws2"
    and w3: "list_all isWhiteSpace ws3" and w4: "list_all isWhiteSpace ws4"
    and d1: "d1 \<noteq> []" "list_all isDigit d1" and d2: "d2 \<noteq> []" "list_all isDigit d2"
    and c: "c = CHR ''x'' \<or> c = CHR ''X''"
    and n: "toNumber d1 = Some w" "toNumber d2 = Some h" "0 < w" "0 < h"
    unfolding resolutionForm_def by blast
  let ?core = "d1 @ ws2 @ c # ws3 @ d2"
  have hd: "\<not> isWhiteSpace (hd ?core)"
    using d1 by (cases d1) (auto simp: digit_not_space)
  have "last ?core = last d2" using d2(1) by simp
  moreover have "isDigit (last d2)"
    using d2 by (simp add: list_all_Ball)
  ultimately have la: "\<not> isWhiteSpace (last ?core)"
    using digit_not_space by simp
  have "trim (ws1 @ ?core @ ws4) = ?core"
    using trim_core [OF w1 w4 _ hd la] d1(1) by simp
  then have t: "trim s = ?core" by (simp add: s)
  have m: "matchResolution ?core = Some (d1, d2)"
    using matchResolution_form [OF d1(2) d1(1) w2 c w3 d2(2) d2(1)] .
  show ?thesis
    by (simp add: parseResolution_def t m n)
qed

lemma parseResolution_rejects:
  assumes "parseResolution v \<noteq> (1920, 1080)"
  shows "\<exists>s. v = JStr s
           \<and> resolutionForm s (fst (parseResolution v)) (snd (parseResolution v))"
proof -
  from assms obtain s where v: "v = JStr s"
    by (cases v) (auto simp: parseResolution_def)
  from assms v obtain m1 m2 where m: "matchResolution (trim s) = Some (m1, m2)"
    by (cases "matchResolution (trim s)") (auto simp: parseResolution_def)
  from assms v m obtain w h where n: "toNumber m1 = Some w" "toNumber m2 = Some h"
    by (cases "toNumber m1"; cases "toNumber m2") (auto simp: parseResolution_def)
  from assms v m n have pos: "0 < w" "0 < h"
    by (auto simp: parseResolution_def split: if_splits)
  have res: "parseResolution v = (w, h)"
    using v m n pos by (simp add: parseResolution_def)
  from matchResolution_decompose [OF m] obtain ws2 c ws3 where
    t: "trim s = m1 @ ws2 @ [c] @ ws3 @ m2"
    and ws: "list_all isWhiteSpace ws2" "list_all isWhiteSpace ws3"
    and ds: "m1 \<noteq> []" "list_all isDigit m1" "m2 \<noteq> []" "list_all isDigit m2"
    and c: "c = CHR ''x'' \<or> c = CHR ''X''"
    by blast
  from trim_decompose [of s] obtain ws1 ws4 where
    s: "s = ws1 @ trim s @ ws4" and wo: "list_all isWhiteSpace ws1" "list_all isWhiteSpace ws4"
    by blast
  have "s = ws1 @ m1 @ ws2 @ [c] @ ws3 @ m2 @ ws4"
    using s t by simp
  then have "resolutionForm s w h"
    unfolding resolutionForm_def using ws ds c wo n pos by blast
  then show ?thesis using v res by simp
qed

text \<open>
  C4, as the code has it. \<open>parseResolution\<close> returns a pair other than the fallback
  exactly for a string that, after its surrounding whitespace is trimmed, reads digits,
  optional whitespace, \<open>x\<close> or \<open>X\<close>, optional whitespace, digits, where both numbers
  are finite and positive as doubles; the pair is then those two doubles. Every other
  input, a value that is not a string included, yields \<open>(1920, 1080)\<close>.
\<close>

theorem parseResolution_characterisation:
  "(resolutionForm s w h \<longrightarrow> parseResolution (JStr s) = (w, h))
   \<and> (parseResolution v \<noteq> (1920, 1080) \<longrightarrow>
        (\<exists>s'. v = JStr s'
           \<and> resolutionForm s' (fst (parseResolution v)) (snd (parseResolution v))))
   \<and> ((\<forall>s'. v \<noteq> JStr s') \<longrightarrow> parseResolution v = (1920, 1080))"
proof (intro conjI impI)
  assume "resolutionForm s w h"
  then show "parseResolution (JStr s) = (w, h)" by (rule parseResolution_accepts)
next
  assume "parseResolution v \<noteq> (1920, 1080)"
  then show "\<exists>s'. v = JStr s'
      \<and> resolutionForm s' (fst (parseResolution v)) (snd (parseResolution v))"
    by (rule parseResolution_rejects)
next
  assume "\<forall>s'. v \<noteq> JStr s'"
  then show "parseResolution v = (1920, 1080)"
    by (cases v) (auto simp: parseResolution_def)
qed

lemma bitLength_bounds:
  "n \<noteq> 0 \<Longrightarrow> 2 ^ (bitLength n - 1) \<le> n \<and> n < 2 ^ bitLength n"
proof (induction n rule: bitLength.induct)
  case (1 n)
  show ?case
  proof (cases "n div 2 = 0")
    case True
    with "1.prems" have "n = 1" by (simp add: div_eq_0_iff) 
    then show ?thesis by (simp add: bitLength.simps)
  next
    case False
    with "1.IH" "1.prems" have ih: "2 ^ (bitLength (n div 2) - 1) \<le> n div 2"
      "n div 2 < 2 ^ bitLength (n div 2)" by simp_all
    have pos: "0 < bitLength (n div 2)"
      using False by (simp add: bitLength.simps [of "n div 2"])
    have b: "bitLength n = Suc (bitLength (n div 2))"
      using "1.prems" by (simp add: bitLength.simps [of n])
    have "2 ^ (bitLength n - 1) = 2 * 2 ^ (bitLength (n div 2) - 1)"
      using pos b by (cases "bitLength (n div 2)") simp_all
    also have "\<dots> \<le> 2 * (n div 2)" using ih(1) by simp
    also have "\<dots> \<le> n" by simp
    finally have lo: "2 ^ (bitLength n - 1) \<le> n" .
    have "n < 2 * (n div 2) + 2" by presburger
    also have "\<dots> \<le> 2 * 2 ^ bitLength (n div 2)" using ih(2) by simp
    finally have "n < 2 ^ bitLength n" by (simp add: b)
    with lo show ?thesis by simp
  qed
qed

lemma roundDouble_overflow:
  assumes "2 ^ 1024 \<le> n"
  shows "roundDouble n = None"
proof -
  define b where "b = bitLength n"
  define e where "e = b - 53"
  define q where "q = n div 2 ^ e"
  have n0: "n \<noteq> 0" using assms by auto
  from bitLength_bounds [OF n0] have lo: "2 ^ (b - 1) \<le> n" and hi: "n < 2 ^ b"
    by (simp_all add: b_def)
  from assms hi have "(2::nat) ^ 1024 < 2 ^ b" by linarith
  then have b: "1024 < b"
    by (rule power_less_imp_less_exp [rotated]) simp
  then have be: "b - 1 = 52 + e" by (simp add: e_def)
  have pw: "(2::nat) ^ (b - 1) = 2 ^ 52 * 2 ^ e"
    by (simp only: be power_add)
  have "2 ^ 52 * 2 ^ e \<le> n" using lo unfolding pw .
  then have q: "2 ^ 52 \<le> q"
    unfolding q_def by (simp add: less_eq_div_iff_mult_less_eq)
  have big: "2 ^ 1024 \<le> q * 2 ^ e"
  proof -
    have "(2::nat) ^ 1024 \<le> 2 ^ (b - 1)" using b by (intro power_increasing) simp_all
    also have "\<dots> = 2 ^ 52 * 2 ^ e" by (rule pw)
    also have "\<dots> \<le> q * 2 ^ e" using q by simp
    finally show ?thesis .
  qed
  then have big': "2 ^ 1024 \<le> (q + 1) * 2 ^ e"
    by (simp add: add_mult_distrib trans_le_add1)
  have "\<not> n < 2 ^ 53"
  proof
    assume "n < 2 ^ 53"
    moreover have "(2::nat) ^ 53 \<le> 2 ^ 1024" by simp
    ultimately show False using assms by linarith
  qed
  then show ?thesis
    using big big' unfolding roundDouble_def Let_def b_def [symmetric] e_def [symmetric] q_def [symmetric]
    by (simp del: power_le_zero_eq)
qed

lemma digitsValue_append_zeros:
  "digitsValue (ds @ replicate n CHR ''0'') = digitsValue ds * 10 ^ n"
proof -
  have "foldl (\<lambda>acc c. 10 * acc + (of_char c - 48)) a (replicate n CHR ''0'') = a * 10 ^ n"
    for a :: nat
    by (induction n arbitrary: a) simp_all
  then show ?thesis by (simp add: digitsValue_def)
qed

lemma list_all_isDigit_zeros: "list_all isDigit (replicate n CHR ''0'')"
  by (simp add: list_all_Ball isDigit_def)

lemma parseResolution_digits:
  assumes "list_all isDigit d1" "d1 \<noteq> []" "list_all isDigit d2" "d2 \<noteq> []"
  shows "matchResolution (d1 @ CHR ''x'' # d2) = Some (d1, d2)"
    and "trim (d1 @ CHR ''x'' # d2) = d1 @ CHR ''x'' # d2"
proof -
  show "matchResolution (d1 @ CHR ''x'' # d2) = Some (d1, d2)"
    using matchResolution_form [OF assms(1,2), of "[]" "CHR ''x''" "[]" d2] assms(3,4) by simp
  have hd: "\<not> isWhiteSpace (hd (d1 @ CHR ''x'' # d2))"
    using assms(1,2) by (cases d1) (auto simp: digit_not_space)
  have "isDigit (last d2)" using assms(3,4) by (simp add: list_all_Ball)
  then have la: "\<not> isWhiteSpace (last (d1 @ CHR ''x'' # d2))"
    using assms(4) digit_not_space by simp
  show "trim (d1 @ CHR ''x'' # d2) = d1 @ CHR ''x'' # d2"
    using trim_core [of "[]" "[]" "d1 @ CHR ''x'' # d2", OF _ _ _ hd la] by simp
qed

text \<open>
  A one followed by \<open>n\<close> zeros as the width: the specification's reading gives
  \<open>10 ^ n\<close>, the code falls back as soon as that number overflows the doubles.
\<close>

lemma big_resolution:
  fixes n :: nat
  defines "d1 \<equiv> CHR ''1'' # replicate n CHR ''0''"
  shows "specResolution (JStr (d1 @ ''x1'')) = (10 ^ n, 1)"
    and "2 ^ 1024 \<le> (10::nat) ^ n \<Longrightarrow> parseResolution (JStr (d1 @ ''x1'')) = (1920, 1080)"
proof -
  have dig: "list_all isDigit d1" "d1 \<noteq> []"
    using list_all_isDigit_zeros [of n] by (simp_all add: isDigit_def d1_def)
  have d2: "list_all isDigit ''1''" "''1'' \<noteq> []"
    by (simp_all add: isDigit_def)
  have one: "digitsValue ''1'' = 1" by (simp add: digitsValue_def)
  have v: "digitsValue d1 = 10 ^ n"
    using digitsValue_append_zeros [of "''1''" n] one by (simp add: d1_def)
  have m: "matchResolution (d1 @ ''x1'') = Some (d1, ''1'')"
    and t: "trim (d1 @ ''x1'') = d1 @ ''x1''"
    using parseResolution_digits [OF dig d2] by simp_all
  show "specResolution (JStr (d1 @ ''x1'')) = (10 ^ n, 1)"
    by (simp add: specResolution_def m v one)
  show "parseResolution (JStr (d1 @ ''x1'')) = (1920, 1080)" if "2 ^ 1024 \<le> (10::nat) ^ n"
    using roundDouble_overflow [OF that]
    by (simp add: parseResolution_def t m toNumber_def v)
qed

lemmas resolution_eval = parseResolution_def specResolution_def matchResolution_def trim_def
  trimStart_def trimEnd_def isDigit_def isWhiteSpace_def toNumber_def digitsValue_def
  roundDouble_def

lemma resolutionForm_example: "resolutionForm '' 1280 X 720 '' 1280 720"
  unfolding resolutionForm_def
  apply (rule exI [of _ "'' ''"])
  apply (rule exI [of _ "''1280''"])
  apply (rule exI [of _ "'' ''"])
  apply (rule exI [of _ "CHR ''X''"])
  apply (rule exI [of _ "'' ''"])
  apply (rule exI [of _ "''720''"])
  apply (rule exI [of _ "'' ''"])
  apply (simp add: resolution_eval)
  done

theorem parseResolution_characterisation_witness:
  "resolutionForm '' 1280 X 720 '' 1280 720
   \<and> parseResolution (JStr '' 1280 X 720 '') = (1280, 720)
   \<and> parseResolution (JStr '' 1280 X 720 '') \<noteq> (1920, 1080)
   \<and> (\<exists>s'. JStr '' 1280 X 720 '' = JStr s' \<and> resolutionForm s' 1280 720)
   \<and> (\<forall>s'. JNull \<noteq> JStr s') \<and> parseResolution JNull = (1920, 1080)"
  using parseResolution_characterisation [of "'' 1280 X 720 ''" 1280 720 "JStr '' 1280 X 720 ''"]
    parseResolution_characterisation [of "''x''" 0 0 JNull]
    resolutionForm_example
  by simp

text \<open>
  C4 as stated fails on the code in two ways. A string with whitespace before the first
  digit is not of the stated form, yet it is parsed; and a string of the stated form whose
  number overflows the doubles (a one and 309 zeros) is answered with the fallback.
\<close>

theorem parseResolution_counterexample:
  "parseResolution (JStr '' 5x7'') = (5, 7)
   \<and> specResolution (JStr '' 5x7'') = (1920, 1080)
   \<and> parseResolution (JStr ((CHR ''1'' # replicate 309 CHR ''0'') @ ''x1'')) = (1920, 1080)
   \<and> specResolution (JStr ((CHR ''1'' # replicate 309 CHR ''0'') @ ''x1'')) = (10 ^ 309, 1)"
proof -
  have c: "parseResolution (JStr '' 5x7'') = (5, 7)"
    by (simp add: resolution_eval)
  have d: "specResolution (JStr '' 5x7'') = (1920, 1080)"
    by (simp add: resolution_eval)
  have big: "2 ^ 1024 \<le> (10::nat) ^ 309" by simp
  show ?thesis
    by (intro conjI) (rule c d big_resolution(1) big_resolution(2) [OF big])+
qed

section \<open>inlineSvgImages\<close>

text \<open>
  The parsed document: elements with a name, an ordered attribute list and children, and
  text nodes. \<open>getAttribute\<close> is \<open>map_of\<close>, \<open>setAttribute\<close> is \<open>AList.update\<close>
  (it overwrites an attribute in place and appends a new one).
\<close>

type_synonym attrs = "(string \<times> string) list"

datatype node = Element string attrs "node list" | TextNode string

fun nodeName :: "node \<Rightarrow> string" where
  "nodeName (Element name as cs) = name"
| "nodeName (TextNode t) = ''#text''"

definition toLowerChar :: "char \<Rightarrow> char" where
  "toLowerChar c =
     (let n = of_char c :: nat
      in if (65 \<le> n \<and> n \<le> 90) \<or> (192 \<le> n \<and> n \<le> 222 \<and> n \<noteq> 215)
         then char_of (n + 32) else c)"

definition toLowerCase :: "string \<Rightarrow> string" where
  "toLowerCase s = map toLowerChar s"

definition startsWith :: "string \<Rightarrow> string \<Rightarrow> bool" where
  "startsWith s p = (take (length p) s = p)"

text \<open>
  The browser, as far as \<open>inlineSvgImages\<close> uses it. A promise that rejects and a call
  that throws are \<open>None\<close>: \<open>resolveUrl\<close> is \<^verbatim>\<open>new URL(href, window.location.href).toString()\<close>,
  \<open>fetch\<close> rejects on a network error and when the abort controller fires after
  \<^verbatim>\<open>FETCH_TIMEOUT_MS\<close>, \<open>blob\<close> and \<open>blobToDataUrl\<close> reject when the body or the
  \<^verbatim>\<open>FileReader\<close> fails. \<open>parseFromString\<close> gives the document element.
\<close>

record response =
  ok :: bool
  status :: nat
  blob :: "string option"

record browser =
  hasWindow :: bool
  parseFromString :: "string \<Rightarrow> node option"
  resolveUrl :: "string \<Rightarrow> string option"
  fetch :: "string \<Rightarrow> response option"
  blobToDataUrl :: "string \<Rightarrow> string option"
  serializeToString :: "node \<Rightarrow> string"

text \<open>\<^verbatim>\<open>a || b\<close> on attribute values: \<^verbatim>\<open>null\<close> and the empty string are falsy.\<close>

definition orElse :: "string option \<Rightarrow> string option \<Rightarrow> string option" where
  "orElse a b = (if a = None \<or> a = Some [] then b else a)"

text \<open>
  The body of the second \<^verbatim>\<open>try\<close> block for one image; \<open>None\<close> when it throws.
\<close>

definition tryInline :: "browser \<Rightarrow> string \<Rightarrow> attrs \<Rightarrow> attrs option" where
  "tryInline env absoluteUrl img =
     (case fetch env absoluteUrl of
        None \<Rightarrow> None
      | Some response \<Rightarrow>
          if \<not> ok response then Some img
          else (case blob response of
                  None \<Rightarrow> None
                | Some b \<Rightarrow>
                    (case blobToDataUrl env b of
                       None \<Rightarrow> None
                     | Some dataUrl \<Rightarrow>
                         Some (AList.update ''xlink:href'' dataUrl
                                 (AList.update ''href'' dataUrl img)))))"

text \<open>
  The asynchronous callback mapped over the images: the attributes of the image when the
  callback's promise fulfils, \<open>None\<close> if it rejected.
\<close>

definition inlineImage :: "browser \<Rightarrow> attrs \<Rightarrow> attrs option" where
  "inlineImage env img =
     (case orElse (map_of img ''href'') (map_of img ''xlink:href'') of
        None \<Rightarrow> Some img
      | Some href \<Rightarrow>
          if href = [] \<or> startsWith href ''data:'' then Some img
          else (case resolveUrl env href of
                  None \<Rightarrow> Some img
                | Some absoluteUrl \<Rightarrow>
                    (case tryInline env absoluteUrl img of
                       None \<Rightarrow> Some img
                     | Some img' \<Rightarrow> Some img')))"

text \<open>\<^verbatim>\<open>Promise.all\<close>: rejects as soon as one of the promises does.\<close>

fun promiseAll :: "'a option list \<Rightarrow> 'a list option" where
  "promiseAll [] = Some []"
| "promiseAll (None # ps) = None"
| "promiseAll (Some v # ps) = map_option (Cons v) (promiseAll ps)"

text \<open>
  \<^verbatim>\<open>querySelectorAll('image')\<close>: the attribute lists of the \<open>image\<close> elements among
  the descendants, in document order.
\<close>

fun imagesIn :: "node \<Rightarrow> attrs list" where
  "imagesIn (TextNode t) = []"
| "imagesIn (Element name as cs) =
     (if name = ''image'' then [as] else []) @ concat (map imagesIn cs)"

fun querySelectorAllImage :: "node \<Rightarrow> attrs list" where
  "querySelectorAllImage (TextNode t) = []"
| "querySelectorAllImage (Element name as cs) = concat (map imagesIn cs)"

text \<open>The document after every callback has run: each image carries what its callback left.\<close>

fun mapImages :: "(attrs \<Rightarrow> attrs) \<Rightarrow> node \<Rightarrow> node" where
  "mapImages f (TextNode t) = TextNode t"
| "mapImages f (Element name as cs) =
     Element name (if name = ''image'' then f as else as) (map (mapImages f) cs)"

fun mapDescendantImages :: "(attrs \<Rightarrow> attrs) \<Rightarrow> node \<Rightarrow> node" where
  "mapDescendantImages f (TextNode t) = TextNode t"
| "mapDescendantImages f (Element name as cs) = Element name as (map (mapImages f) cs)"

definition settled :: "browser \<Rightarrow> attrs \<Rightarrow> attrs" where
  "settled env img = (case inlineImage env img of None \<Rightarrow> img | Some img' \<Rightarrow> img')"

fun ensureAttribute :: "string \<Rightarrow> string \<Rightarrow> node \<Rightarrow> node" where
  "ensureAttribute name v (TextNode t) = TextNode t"
| "ensureAttribute name v (Element n as cs) =
     (if map_of as name = None \<or> map_of as name = Some []
      then Element n (AList.update name v as) cs else Element n as cs)"

text \<open>
  \<open>inlineSvgImages\<close>: the string the returned promise fulfils with, \<open>None\<close> if it
  rejects.
\<close>

definition inlineSvgImages :: "browser \<Rightarrow> string \<Rightarrow> string option" where
  "inlineSvgImages env svgString =
     (if \<not> hasWindow env \<or> svgString = [] then Some svgString
      else case parseFromString env svgString of
             None \<Rightarrow> Some svgString
           | Some svg \<Rightarrow>
               if toLowerCase (nodeName svg) \<noteq> ''svg'' then Some svgString
               else let svg' = ensureAttribute ''xmlns:xlink'' ''http://www.w3.org/1999/xlink''
                                 (ensureAttribute ''xmlns'' ''http://www.w3.org/2000/svg'' svg)
                    in case promiseAll (map (inlineImage env) (querySelectorAllImage svg')) of
                         None \<Rightarrow> None
                       | Some done \<Rightarrow>
                           Some (serializeToString env (mapDescendantImages (settled env) svg')))"

text \<open>
  What one image's fetch delivers: the data URL, or \<open>None\<close> on an unparseable URL, a
  rejected fetch (network error, timeout), a response that is not ok, or a body that
  cannot be read. \<open>externalHref\<close> is the reference that is to be inlined, if any.
\<close>

definition externalHref :: "attrs \<Rightarrow> string option" where
  "externalHref img =
     (case orElse (map_of img ''href'') (map_of img ''xlink:href'') of
        None \<Rightarrow> None
      | Some href \<Rightarrow> if href = [] \<or> startsWith href ''data:'' then None else Some href)"

definition fetchedDataUrl :: "browser \<Rightarrow> string \<Rightarrow> string option" where
  "fetchedDataUrl env href =
     (case resolveUrl env href of
        None \<Rightarrow> None
      | Some absoluteUrl \<Rightarrow>
          (case fetch env absoluteUrl of
             None \<Rightarrow> None
           | Some response \<Rightarrow>
               if ok response
               then (case blob response of None \<Rightarrow> None | Some b \<Rightarrow> blobToDataUrl env b)
               else None))"

definition inlinedDocument :: "browser \<Rightarrow> node \<Rightarrow> node" where
  "inlinedDocument env svg =
     mapDescendantImages (settled env)
       (ensureAttribute ''xmlns:xlink'' ''http://www.w3.org/1999/xlink''
          (ensureAttribute ''xmlns'' ''http://www.w3.org/2000/svg'' svg))"

lemma inlineImage_fulfils: "inlineImage env img \<noteq> None"
  by (simp add: inlineImage_def split: option.splits)

lemma promiseAll_fulfils: "list_all (\<lambda>p. p \<noteq> None) ps \<Longrightarrow> promiseAll ps \<noteq> None"
  by (induction ps rule: promiseAll.induct) auto

lemma promiseAll_inlineImage: "promiseAll (map (inlineImage env) imgs) \<noteq> None"
  using inlineImage_fulfils by (intro promiseAll_fulfils) (simp add: list_all_Ball)

lemma settled_cases:
  "settled env img =
     (case externalHref img of
        None \<Rightarrow> img
      | Some href \<Rightarrow>
          (case fetchedDataUrl env href of
             None \<Rightarrow> img
           | Some dataUrl \<Rightarrow>
               AList.update ''xlink:href'' dataUrl (AList.update ''href'' dataUrl img)))"
  by (auto simp: settled_def inlineImage_def externalHref_def fetchedDataUrl_def tryInline_def
      split: option.splits)

lemma imagesIn_mapImages: "imagesIn (mapImages f n) = map f (imagesIn n)"
proof (induction n)
  case (Element name as cs)
  have "concat (map (imagesIn \<circ> mapImages f) cs) = concat (map (map f \<circ> imagesIn) cs)"
    using Element.IH by (intro arg_cong [where f = concat] map_cong) simp_all
  then show ?case by (simp add: map_concat)
next
  case (TextNode t)
  show ?case by simp
qed

lemma querySelectorAllImage_mapDescendantImages:
  "querySelectorAllImage (mapDescendantImages f n) = map f (querySelectorAllImage n)"
  by (cases n) (simp_all add: map_concat imagesIn_mapImages comp_def)

lemma querySelectorAllImage_ensureAttribute:
  "querySelectorAllImage (ensureAttribute name v n) = querySelectorAllImage n"
  by (cases n) simp_all

lemma inlineSvgImages_proceeds:
  assumes "hasWindow env" "svgString \<noteq> []" "parseFromString env svgString = Some svg"
    "toLowerCase (nodeName svg) = ''svg''"
  shows "inlineSvgImages env svgString = Some (serializeToString env (inlinedDocument env svg))"
  using assms promiseAll_inlineImage
  by (auto simp: inlineSvgImages_def inlinedDocument_def Let_def split: option.splits)

lemma images_inlinedDocument:
  "querySelectorAllImage (inlinedDocument env svg) = map (settled env) (querySelectorAllImage svg)"
  by (simp add: inlinedDocument_def querySelectorAllImage_mapDescendantImages
      querySelectorAllImage_ensureAttribute)


lemma inlineSvgImages_returns_input:
  assumes "\<not> hasWindow env \<or> svgString = [] \<or> parseFromString env svgString = None
     \<or> (\<exists>root. parseFromString env svgString = Some root \<and> toLowerCase (nodeName root) \<noteq> ''svg'')"
  shows "inlineSvgImages env svgString = Some svgString"
  using assms by (auto simp: inlineSvgImages_def split: option.splits)

text \<open>A browser to run the model in: one image is served, every other fetch fails.\<close>

fun demoSerialize :: "node \<Rightarrow> string" where
  "demoSerialize (TextNode t) = t"
| "demoSerialize (Element name as cs) =
     ''<'' @ name @ concat (map (\<lambda>(k, v). '' '' @ k @ ''='' @ v) as) @ ''>''
       @ concat (map demoSerialize cs) @ ''</'' @ name @ ''>''"

definition demoDocument :: node where
  "demoDocument =
     Element ''svg'' [(''xmlns'', ''http://www.w3.org/2000/svg'')]
       [Element ''image'' [(''href'', ''a.png'')] [],
        Element ''g'' [] [Element ''image'' [(''xlink:href'', ''b.png'')] []],
        Element ''image'' [(''href'', ''data:image/png;base64,AA'')] []]"

definition demoBrowser :: browser where
  "demoBrowser =
     \<lparr> hasWindow = True,
       parseFromString = (\<lambda>s. if s = ''<svg>'' then Some demoDocument
                                else if s = ''<html>'' then Some (Element ''html'' [] [])
                                else None),
       resolveUrl = (\<lambda>href. if href = ''http://['' then None else Some (''http://host/'' @ href)),
       fetch = (\<lambda>url. if url = ''http://host/b.png''
                         then Some \<lparr> ok = True, status = 200, blob = Some ''PNG'' \<rparr>
                         else if url = ''http://host/c.png''
                         then Some \<lparr> ok = False, status = 404, blob = None \<rparr>
                         else None),
       blobToDataUrl = (\<lambda>b. Some (''data:;base64,'' @ b)),
       serializeToString = demoSerialize \<rparr>"

lemmas inline_eval = inlineSvgImages_def inlinedDocument_def settled_def inlineImage_def
  tryInline_def orElse_def startsWith_def externalHref_def fetchedDataUrl_def toLowerCase_def
  toLowerChar_def demoBrowser_def demoDocument_def

text \<open>
  C10. \<open>inlineSvgImages\<close> fulfils with its input string itself when the input is empty
  (or no window exists), when parsing yields no document element, and when the document
  element is not named \<open>svg\<close> (compared in lower case). With a window, a non-empty
  input and an \<open>svg\<close> root it fulfils with the serialization of the modified document.
\<close>

theorem inlineSvgImages_unchanged_unless_svg:
  "((\<not> hasWindow env \<or> svgString = [] \<or> parseFromString env svgString = None
       \<or> (\<exists>root. parseFromString env svgString = Some root
                \<and> toLowerCase (nodeName root) \<noteq> ''svg''))
     \<longrightarrow> inlineSvgImages env svgString = Some svgString)
   \<and> (hasWindow env \<and> svgString \<noteq> [] \<and> parseFromString env svgString = Some svg
        \<and> toLowerCase (nodeName svg) = ''svg''
     \<longrightarrow> inlineSvgImages env svgString
           = Some (serializeToString env (inlinedDocument env svg)))"
  using inlineSvgImages_returns_input [of env svgString]
    inlineSvgImages_proceeds [of env svgString svg]
  by blast

theorem inlineSvgImages_unchanged_unless_svg_witness:
  "inlineSvgImages demoBrowser [] = Some []
   \<and> parseFromString demoBrowser ''<svg'' = None
   \<and> inlineSvgImages demoBrowser ''<svg'' = Some ''<svg''
   \<and> parseFromString demoBrowser ''<html>'' = Some (Element ''html'' [] [])
   \<and> inlineSvgImages demoBrowser ''<html>'' = Some ''<html>''
   \<and> hasWindow demoBrowser \<and> parseFromString demoBrowser ''<svg>'' = Some demoDocument
   \<and> toLowerCase (nodeName demoDocument) = ''svg''
   \<and> inlineSvgImages demoBrowser ''<svg>''
       = Some (serializeToString demoBrowser (inlinedDocument demoBrowser demoDocument))"
  using inlineSvgImages_unchanged_unless_svg [of demoBrowser "[]" demoDocument]
    inlineSvgImages_unchanged_unless_svg [of demoBrowser "''<svg''" demoDocument]
    inlineSvgImages_unchanged_unless_svg [of demoBrowser "''<html>''" demoDocument]
    inlineSvgImages_unchanged_unless_svg [of demoBrowser "''<svg>''" demoDocument]
  by (simp add: demoBrowser_def demoDocument_def toLowerCase_def toLowerChar_def)

text \<open>
  C2. For a document with an \<open>svg\<close> root, \<open>inlineSvgImages\<close> fulfils with the
  serialization of a document whose images are, one by one and in document order, the
  images of the input: an image whose reference could not be fetched (unparseable URL,
  rejected or timed-out fetch, response not ok, unreadable body) keeps its attributes
  exactly; an image whose fetch delivered a data URL carries it in \<open>href\<close> and
  \<open>xlink:href\<close>, whatever happened to the other images.
\<close>

theorem inlineSvgImages_best_effort:
  assumes "hasWindow env" "svgString \<noteq> []" "parseFromString env svgString = Some svg"
    "toLowerCase (nodeName svg) = ''svg''"
  shows "inlineSvgImages env svgString = Some (serializeToString env (inlinedDocument env svg))
    \<and> querySelectorAllImage (inlinedDocument env svg)
        = map (\<lambda>img. case externalHref img of
                        None \<Rightarrow> img
                      | Some href \<Rightarrow>
                          (case fetchedDataUrl env href of
                             None \<Rightarrow> img
                           | Some dataUrl \<Rightarrow>
                               AList.update ''xlink:href'' dataUrl
                                 (AList.update ''href'' dataUrl img)))
            (querySelectorAllImage svg)"
proof
  show "inlineSvgImages env svgString = Some (serializeToString env (inlinedDocument env svg))"
    using assms by (rule inlineSvgImages_proceeds)
  have "settled env = (\<lambda>img. case externalHref img of
                        None \<Rightarrow> img
                      | Some href \<Rightarrow>
                          (case fetchedDataUrl env href of
                             None \<Rightarrow> img
                           | Some dataUrl \<Rightarrow>
                               AList.update ''xlink:href'' dataUrl
                                 (AList.update ''href'' dataUrl img)))"
    by (rule ext) (rule settled_cases)
  then show "querySelectorAllImage (inlinedDocument env svg)
        = map (\<lambda>img. case externalHref img of
                        None \<Rightarrow> img
                      | Some href \<Rightarrow>
                          (case fetchedDataUrl env href of
                             None \<Rightarrow> img
                           | Some dataUrl \<Rightarrow>
                               AList.update ''xlink:href'' dataUrl
                                 (AList.update ''href'' dataUrl img)))
            (querySelectorAllImage svg)"
    using images_inlinedDocument [of env svg] by simp
qed

theorem inlineSvgImages_best_effort_witness:
  "hasWindow demoBrowser \<and> ''<svg>'' \<noteq> []
   \<and> parseFromString demoBrowser ''<svg>'' = Some demoDocument
   \<and> toLowerCase (nodeName demoDocument) = ''svg''
   \<and> fetchedDataUrl demoBrowser ''a.png'' = None
   \<and> fetchedDataUrl demoBrowser ''b.png'' = Some ''data:;base64,PNG''
   \<and> querySelectorAllImage demoDocument
       = [[(''href'', ''a.png'')], [(''xlink:href'', ''b.png'')],
          [(''href'', ''data:image/png;base64,AA'')]]
   \<and> querySelectorAllImage (inlinedDocument demoBrowser demoDocument)
       = [[(''href'', ''a.png'')],
          [(''xlink:href'', ''data:;base64,PNG''), (''href'', ''data:;base64,PNG'')],
          [(''href'', ''data:image/png;base64,AA'')]]
   \<and> inlineSvgImages demoBrowser ''<svg>''
       = Some (serializeToString demoBrowser (inlinedDocument demoBrowser demoDocument))"
  using inlineSvgImages_best_effort [of demoBrowser "''<svg>''" demoDocument]
  by (simp add: inline_eval)

section \<open>Splitting and joining\<close>

text \<open>\<^verbatim>\<open>text.split(' ')\<close>: the pieces between separators; never an empty list.\<close>

fun split :: "char \<Rightarrow> string \<Rightarrow> string list" where
  "split sep [] = [[]]"
| "split sep (c # cs) =
     (if c = sep then [] # split sep cs
      else (case split sep cs of [] \<Rightarrow> [[c]] | w # ws \<Rightarrow> (c # w) # ws))"

text \<open>\<^verbatim>\<open>lines.join(' ')\<close>.\<close>

fun join :: "string \<Rightarrow> string list \<Rightarrow> string" where
  "join sep [] = []"
| "join sep [x] = x"
| "join sep (x # y # zs) = x @ sep @ join sep (y # zs)"

text \<open>\<^verbatim>\<open>words.indexOf(word)\<close> for a word that occurs in \<open>words\<close>.\<close>

definition indexOf :: "'a list \<Rightarrow> 'a \<Rightarrow> nat" where
  "indexOf xs x = length (takeWhile (\<lambda>y. y \<noteq> x) xs)"


section \<open>wrapTopicText\<close>

text \<open>
  The \<^verbatim>\<open>for\<close> loop of \<open>wrapTopicText\<close> over the words still to come; the state is
  \<open>lines\<close> and \<open>currentLine\<close>, and the \<^verbatim>\<open>break\<close> ends the recursion.
\<close>

fun topicLoop ::
  "string list \<Rightarrow> int \<Rightarrow> int \<Rightarrow> string list \<Rightarrow> string list \<Rightarrow> string \<Rightarrow> string list \<times> string"
where
  "topicLoop words maxCharsPerLine maxLines [] lines currentLine = (lines, currentLine)"
| "topicLoop words maxCharsPerLine maxLines (word # rest) lines currentLine =
     (if int (length currentLine) + int (length word) + 1 \<le> maxCharsPerLine
      then topicLoop words maxCharsPerLine maxLines rest lines
             (if currentLine \<noteq> [] then currentLine @ '' '' @ word else word)
      else let lines' = (if currentLine \<noteq> [] then lines @ [currentLine] else lines)
           in if maxLines - 1 \<le> int (length lines')
              then (lines' @ [join '' '' (drop (indexOf words word) words)], word)
              else topicLoop words maxCharsPerLine maxLines rest lines' word)"

definition wrapTopicText :: "string \<Rightarrow> int \<Rightarrow> int \<Rightarrow> string list" where
  "wrapTopicText topic maxCharsPerLine maxLines =
     (if topic = [] then [[], [], []]
      else let words = split CHR '' '' topic;
               (lines, currentLine) = topicLoop words maxCharsPerLine maxLines words [] [];
               lines' = (if currentLine \<noteq> [] \<and> int (length lines) < maxLines
                         then lines @ [currentLine] else lines)
           in lines' @ replicate (nat (maxLines - int (length lines'))) [])"

lemma topicLoop_length:
  assumes "2 \<le> maxLines" "int (length lines) \<le> maxLines - 2"
    "topicLoop words maxCharsPerLine maxLines rest lines currentLine = (lines', cur')"
  shows "int (length lines') \<le> maxLines - 2 \<or> int (length lines') = maxLines"
  using assms
proof (induction rest arbitrary: lines currentLine)
  case Nil
  then show ?case by simp
next
  case (Cons word rest)
  show ?case
  proof (cases "int (length currentLine) + int (length word) + 1 \<le> maxCharsPerLine")
    case True
    with Cons.prems(3) have
      "topicLoop words maxCharsPerLine maxLines rest lines
         (if currentLine \<noteq> [] then currentLine @ '' '' @ word else word) = (lines', cur')"
      by simp
    from Cons.IH [OF Cons.prems(1,2) this] show ?thesis .
  next
    case False
    define l where "l = (if currentLine \<noteq> [] then lines @ [currentLine] else lines)"
    have l: "int (length l) \<le> maxLines - 1"
      using Cons.prems(2) by (simp add: l_def)
    show ?thesis
    proof (cases "maxLines - 1 \<le> int (length l)")
      case True
      with False Cons.prems(3) have "lines' = l @ [join '' '' (drop (indexOf words word) words)]"
        by (auto simp: l_def [symmetric] Let_def)
      with True l show ?thesis by simp
    next
      case no: False
      with False Cons.prems(3) have
        "topicLoop words maxCharsPerLine maxLines rest l word = (lines', cur')"
        by (simp add: l_def [symmetric] Let_def)
      moreover from no have "int (length l) \<le> maxLines - 2" by simp
      ultimately show ?thesis using Cons.IH [OF Cons.prems(1)] by blast
    qed
  qed
qed

lemma wrapTopicText_length:
  assumes "topic \<noteq> []" "2 \<le> maxLines"
  shows "int (length (wrapTopicText topic maxCharsPerLine maxLines)) = maxLines"
proof -
  obtain lines cur where
    loop: "topicLoop (split CHR '' '' topic) maxCharsPerLine maxLines (split CHR '' '' topic) [] []
       = (lines, cur)"
    by (cases "topicLoop (split CHR '' '' topic) maxCharsPerLine maxLines (split CHR '' '' topic) [] []")
  from topicLoop_length [OF assms(2) _ loop] assms(2)
  have "int (length lines) \<le> maxLines - 2 \<or> int (length lines) = maxLines" by simp
  then show ?thesis
    using assms by (auto simp: wrapTopicText_def loop Let_def)
qed

lemma wrapTopicText_default_length:
  "length (wrapTopicText topic maxCharsPerLine 3) = 3"
proof (cases "topic = []")
  case True
  then show ?thesis by (simp add: wrapTopicText_def)
next
  case False
  from wrapTopicText_length [OF False, of 3 maxCharsPerLine] show ?thesis by simp
qed

text \<open>
  C9 fails on the code for a \<open>maxLines\<close> other than the default. An empty topic is
  answered with three empty strings whatever \<open>maxLines\<close> is, and with \<open>maxLines = 1\<close>
  the first overflowing word pushes the current line and the remainder, two entries.
\<close>

theorem wrapTopicText_wrong_length:
  "wrapTopicText [] 25 5 = [[], [], []]
   \<and> wrapTopicText ''ab cdefgh'' 5 1 = [''ab'', ''cdefgh'']"
  by (simp add: wrapTopicText_def indexOf_def)

section \<open>replaceTokens\<close>

text \<open>
  \<^verbatim>\<open>value || ''\<close> and the conversion to a string that \<^verbatim>\<open>String.prototype.replace\<close>
  applies to its second argument. Integers print in decimal (as JavaScript prints them
  below \<open>10\<^sup>2\<^sup>1\<close> in absolute value).
\<close>

fun falsy :: "jsval \<Rightarrow> bool" where
  "falsy JUndefined = True"
| "falsy JNull = True"
| "falsy (JBool b) = (\<not> b)"
| "falsy (JNum n) = (n = 0)"
| "falsy JNaN = True"
| "falsy (JStr s) = (s = [])"

fun showNat :: "nat \<Rightarrow> string" where
  "showNat n =
     (if n < 10 then [''0123456789'' ! n] else showNat (n div 10) @ [''0123456789'' ! (n mod 10)])"

declare showNat.simps [simp del]

fun jsToString :: "jsval \<Rightarrow> string" where
  "jsToString JUndefined = ''undefined''"
| "jsToString JNull = ''null''"
| "jsToString (JBool b) = (if b then ''true'' else ''false'')"
| "jsToString (JNum n) = (if n < 0 then ''-'' @ showNat (nat (- n)) else showNat (nat n))"
| "jsToString JNaN = ''NaN''"
| "jsToString (JStr s) = s"

definition replaceValue :: "jsval \<Rightarrow> string" where
  "replaceValue v = jsToString (if falsy v then JStr [] else v)"

text \<open>
  The replacement patterns of \<^verbatim>\<open>String.prototype.replace\<close> for a pattern without
  capture groups: \<^verbatim>\<open>$$\<close> is a dollar sign, \<^verbatim>\<open>$&\<close> the matched text, \<^verbatim>\<open>$`\<close> the text before
  the match and \<^verbatim>\<open>$'\<close> the text after it; every other character stands for itself.
\<close>

fun getSubstitution :: "string \<Rightarrow> string \<Rightarrow> string \<Rightarrow> string \<Rightarrow> string" where
  "getSubstitution matched pre post [] = []"
| "getSubstitution matched pre post [c] = [c]"
| "getSubstitution matched pre post (c # d # r) =
     (if c = CHR ''$'' \<and> d = CHR ''$'' then CHR ''$'' # getSubstitution matched pre post r
      else if c = CHR ''$'' \<and> d = CHR ''&'' then matched @ getSubstitution matched pre post r
      else if c = CHR ''$'' \<and> d = CHR 0x60 then pre @ getSubstitution matched pre post r
      else if c = CHR ''$'' \<and> d = CHR 0x27 then post @ getSubstitution matched pre post r
      else c # getSubstitution matched pre post (d # r))"











lemma getSubstitution_empty: "getSubstitution matched pre post [] = []"
  by simp









lemma showNat_nonempty: "showNat n \<noteq> []"
  by (subst showNat.simps) simp

lemma replaceValue_truthy: "\<not> falsy v \<Longrightarrow> replaceValue v = jsToString v \<and> jsToString v \<noteq> []"
  by (cases v) (auto simp: replaceValue_def showNat_nonempty)



























section \<open>wrapText and wrapTextToWidth\<close>

text \<open>
  The \<^verbatim>\<open>forEach\<close> of \<open>wrapText\<close> over the words still to come, followed by the
  final push.
\<close>

fun wrapTextLoop :: "int \<Rightarrow> string list \<Rightarrow> string list \<Rightarrow> string \<Rightarrow> string list" where
  "wrapTextLoop maxChars [] lines currentLine =
     (if currentLine \<noteq> [] then lines @ [currentLine] else lines)"
| "wrapTextLoop maxChars (word # rest) lines currentLine =
     (if int (length (trim (currentLine @ '' '' @ word))) \<le> maxChars
      then wrapTextLoop maxChars rest lines (trim (currentLine @ '' '' @ word))
      else wrapTextLoop maxChars rest
             (if currentLine \<noteq> [] then lines @ [currentLine] else lines) word)"

definition wrapText :: "string \<Rightarrow> int \<Rightarrow> string list" where
  "wrapText text maxChars =
     (if text = [] then [] else wrapTextLoop maxChars (split CHR '' '' text) [] [])"

text \<open>
  \<^verbatim>\<open>text.split(/\s+/).filter(Boolean)\<close>: the maximal runs of characters that are not
  whitespace. \<open>w\<close> is the run being read.
\<close>

fun splitWhitespace :: "string \<Rightarrow> string \<Rightarrow> string list" where
  "splitWhitespace w [] = (if w = [] then [] else [w])"
| "splitWhitespace w (c # cs) =
     (if isWhiteSpace c then (if w = [] then splitWhitespace [] cs else w # splitWhitespace [] cs)
      else splitWhitespace (w @ [c]) cs)"

text \<open>
  A font is the weight and the size in pixels that the code writes into the CSS font
  string (the family is the same everywhere). A measuring context gives the width of a
  text in a font, as \<^verbatim>\<open>ctx.font = font; ctx.measureText(text).width\<close> does.
\<close>

record font =
  weight :: nat
  fontSize :: real

type_synonym measureContext = "font \<Rightarrow> string \<Rightarrow> real"

fun wrapWidthLoop ::
  "(string \<Rightarrow> real) \<Rightarrow> real \<Rightarrow> string list \<Rightarrow> string list \<Rightarrow> string \<Rightarrow> string list"
where
  "wrapWidthLoop measureText maxWidth [] lines current =
     (if current \<noteq> [] then lines @ [current] else lines)"
| "wrapWidthLoop measureText maxWidth (word # rest) lines current =
     (let next = (if current \<noteq> [] then current @ '' '' @ word else word)
      in if measureText next \<le> maxWidth
         then wrapWidthLoop measureText maxWidth rest lines next
         else wrapWidthLoop measureText maxWidth rest
                (if current \<noteq> [] then lines @ [current] else lines) word)"

text \<open>
  \<open>wrapTextToWidth\<close>. A missing context or font is \<open>None\<close>; the width is a real number,
  so \<^verbatim>\<open>Number.isFinite(maxWidth)\<close> holds.
\<close>

definition wrapTextToWidth ::
  "string \<Rightarrow> real \<Rightarrow> measureContext option \<Rightarrow> font option \<Rightarrow> string list"
where
  "wrapTextToWidth text maxWidth ctx fnt =
     (if text = [] then []
      else case (ctx, fnt) of
             (Some measureText, Some f) \<Rightarrow>
               if maxWidth \<le> 0 then wrapText text 22
               else wrapWidthLoop (measureText f) maxWidth (splitWhitespace [] text) [] []
           | _ \<Rightarrow> wrapText text 22)"

text \<open>The whitespace-normalized text: its words, joined by single spaces.\<close>

definition normalizeWhitespace :: "string \<Rightarrow> string" where
  "normalizeWhitespace text = join '' '' (splitWhitespace [] text)"

lemma join_merge: "join '' '' (xs @ (a @ '' '' @ b) # ys) = join '' '' (xs @ a # b # ys)"
proof (induction xs rule: join.induct [of _ "'' ''"])
  case 1
  show ?case by (cases ys) simp_all
next
  case (2 x)
  show ?case by (cases ys) simp_all
next
  case (3 x y zs)
  then show ?case by simp
qed

lemma join_wrapWidthLoop:
  "list_all (\<lambda>w. w \<noteq> []) ws \<Longrightarrow>
   join '' '' (wrapWidthLoop m maxWidth ws lines current)
     = join '' '' (lines @ (if current \<noteq> [] then [current] else []) @ ws)"
proof (induction ws arbitrary: lines current)
  case Nil
  show ?case by simp
next
  case (Cons w ws)
  then have w: "w \<noteq> []" and ws: "list_all (\<lambda>w. w \<noteq> []) ws" by simp_all
  show ?case
  proof (cases "m (if current \<noteq> [] then current @ '' '' @ w else w) \<le> maxWidth")
    case True
    show ?thesis
    proof (cases "current = []")
      case True
      with \<open>m (if current \<noteq> [] then current @ '' '' @ w else w) \<le> maxWidth\<close> w
        Cons.IH [OF ws, of lines w]
      show ?thesis by simp
    next
      case False
      with True Cons.IH [OF ws, of lines "current @ '' '' @ w"]
      have "join '' '' (wrapWidthLoop m maxWidth (w # ws) lines current)
          = join '' '' (lines @ (current @ '' '' @ w) # ws)"
        by simp
      also have "\<dots> = join '' '' (lines @ current # w # ws)"
        by (rule join_merge)
      finally show ?thesis using False by simp
    qed
  next
    case False
    with Cons.IH [OF ws, of "if current \<noteq> [] then lines @ [current] else lines" w] w
    show ?thesis by simp
  qed
qed

lemma splitWhitespace_nonempty: "list_all (\<lambda>w. w \<noteq> []) (splitWhitespace w s)"
  by (induction s arbitrary: w) simp_all

lemma split_nonempty: "split sep s \<noteq> []"
  by (induction s) (auto split: list.splits)

lemma split_chars: "w \<in> set (split sep s) \<Longrightarrow> c \<in> set w \<Longrightarrow> c \<in> set s \<and> c \<noteq> sep"
proof (induction s arbitrary: w)
  case Nil
  then show ?case by simp
next
  case (Cons x s)
  show ?case
  proof (cases "x = sep")
    case True
    with Cons.prems have "w \<in> set (split sep s)" by auto
    from Cons.IH [OF this Cons.prems(2)] show ?thesis by simp
  next
    case False
    obtain y ys where s: "split sep s = y # ys"
      using split_nonempty [of sep s] by (cases "split sep s") auto
    with False Cons.prems(1) have "w = x # y \<or> w \<in> set ys" by simp
    then show ?thesis
    proof
      assume "w = x # y"
      with Cons.prems(2) have "c = x \<or> c \<in> set y" by simp
      then show ?thesis
        using False Cons.IH [of y] s by auto
    next
      assume "w \<in> set ys"
      then show ?thesis using Cons.IH [of w] Cons.prems(2) s by auto
    qed
  qed
qed

text \<open>The texts whose only whitespace is the space character.\<close>

definition spacesOnly :: "string \<Rightarrow> bool" where
  "spacesOnly text = list_all (\<lambda>c. isWhiteSpace c \<longrightarrow> c = CHR '' '') text"

definition noWhiteSpace :: "string \<Rightarrow> bool" where
  "noWhiteSpace w = list_all (\<lambda>c. \<not> isWhiteSpace c) w"

lemma split_noWhiteSpace:
  assumes "spacesOnly text"
  shows "list_all noWhiteSpace (split CHR '' '' text)"
  unfolding list_all_Ball noWhiteSpace_def
proof (intro ballI)
  fix w c assume "w \<in> set (split CHR '' '' text)" "c \<in> set w"
  from split_chars [OF this] assms show "\<not> isWhiteSpace c"
    by (auto simp: spacesOnly_def list_all_Ball)
qed

lemma space_isWhiteSpace: "isWhiteSpace CHR '' ''"
  by (simp add: isWhiteSpace_def)

lemma trim_spaces:
  assumes "list_all isWhiteSpace ws"
  shows "trim ws = []"
proof -
  have d: "dropWhile isWhiteSpace ws = []"
    using assms by (induction ws) simp_all
  show ?thesis unfolding trim_def trimStart_def trimEnd_def d by simp
qed

lemma noWhiteSpace_ends:
  "noWhiteSpace w \<Longrightarrow> w \<noteq> [] \<Longrightarrow> \<not> isWhiteSpace (hd w) \<and> \<not> isWhiteSpace (last w)"
  by (simp add: noWhiteSpace_def list_all_Ball)

text \<open>A line under construction: empty, or with no whitespace at either end.\<close>

definition tidy :: "string \<Rightarrow> bool" where
  "tidy s = (s = [] \<or> (\<not> isWhiteSpace (hd s) \<and> \<not> isWhiteSpace (last s)))"

lemma trim_candidate:
  assumes "tidy cur" "noWhiteSpace w"
  shows "trim (cur @ '' '' @ w)
     = (if cur = [] then w else if w = [] then cur else cur @ '' '' @ w)"
proof -
  have sp: "list_all isWhiteSpace '' ''" by (simp add: space_isWhiteSpace)
  consider "cur = []" "w = []" | "cur = []" "w \<noteq> []" | "cur \<noteq> []" "w = []"
    | "cur \<noteq> []" "w \<noteq> []" by blast
  then show ?thesis
  proof cases
    case 1
    then show ?thesis using trim_spaces [OF sp] by simp
  next
    case 2
    with noWhiteSpace_ends [OF assms(2)] trim_core [of "'' ''" "[]" w] sp
    show ?thesis by simp
  next
    case 3
    with assms(1) trim_core [of "[]" "'' ''" cur] sp
    show ?thesis by (simp add: tidy_def)
  next
    case 4
    with assms(1) noWhiteSpace_ends [OF assms(2)]
      trim_core [of "[]" "[]" "cur @ '' '' @ w"]
    show ?thesis by (simp add: tidy_def)
  qed
qed

lemma tidy_candidate:
  assumes "tidy cur" "noWhiteSpace w"
  shows "tidy (if cur = [] then w else if w = [] then cur else cur @ '' '' @ w)"
  using assms noWhiteSpace_ends [OF assms(2)] by (auto simp: tidy_def)

lemma noWhiteSpace_tidy: "noWhiteSpace w \<Longrightarrow> tidy w"
  using noWhiteSpace_ends by (auto simp: tidy_def)

lemma join_wrapTextLoop:
  "list_all noWhiteSpace ws \<Longrightarrow> tidy current \<Longrightarrow>
   join '' '' (wrapTextLoop maxChars ws lines current)
     = join '' '' (lines @ (if current \<noteq> [] then [current] else []) @ filter (\<lambda>w. w \<noteq> []) ws)"
proof (induction ws arbitrary: lines current)
  case Nil
  show ?case by simp
next
  case (Cons w ws)
  then have w: "noWhiteSpace w" and ws: "list_all noWhiteSpace ws" by simp_all
  define cand where "cand = (if current = [] then w else if w = [] then current
                             else current @ '' '' @ w)"
  have t: "trim (current @ CHR '' '' # w) = cand"
    using trim_candidate [OF Cons.prems(2) w] by (simp add: cand_def)
  have tc: "tidy cand"
    using tidy_candidate [OF Cons.prems(2) w] by (simp add: cand_def)
  show ?case
  proof (cases "int (length cand) \<le> maxChars")
    case True
    then have step: "wrapTextLoop maxChars (w # ws) lines current
        = wrapTextLoop maxChars ws lines cand"
      by (simp add: t)
    have "join '' '' (lines @ (if cand \<noteq> [] then [cand] else []) @ filter (\<lambda>w. w \<noteq> []) ws)
        = join '' '' (lines @ (if current \<noteq> [] then [current] else [])
             @ filter (\<lambda>w. w \<noteq> []) (w # ws))"
    proof (cases "current = [] \<or> w = []")
      case True
      then show ?thesis by (auto simp: cand_def)
    next
      case False
      then have "cand = current @ '' '' @ w" by (simp add: cand_def)
      with False join_merge [of lines current w "filter (\<lambda>w. w \<noteq> []) ws"]
      show ?thesis by simp
    qed
    with step Cons.IH [OF ws tc, of lines] show ?thesis by simp
  next
    case False
    then have step: "wrapTextLoop maxChars (w # ws) lines current
        = wrapTextLoop maxChars ws (if current \<noteq> [] then lines @ [current] else lines) w"
      by (simp add: t)
    from Cons.IH [OF ws noWhiteSpace_tidy [OF w],
        of "if current \<noteq> [] then lines @ [current] else lines"] step
    show ?thesis by simp
  qed
qed

lemma splitWhitespace_split:
  "spacesOnly s \<Longrightarrow>
   splitWhitespace w s
     = filter (\<lambda>x. x \<noteq> []) (case split CHR '' '' s of [] \<Rightarrow> [] | x # xs \<Rightarrow> (w @ x) # xs)"
proof (induction s arbitrary: w)
  case Nil
  show ?case by simp
next
  case (Cons c s)
  then have s: "spacesOnly s" and c: "isWhiteSpace c \<longrightarrow> c = CHR '' ''"
    by (simp_all add: spacesOnly_def)
  obtain y ys where sp: "split CHR '' '' s = y # ys"
    using split_nonempty [of "CHR '' ''" s] by (cases "split CHR '' '' s") auto
  show ?case
  proof (cases "c = CHR '' ''")
    case True
    with Cons.IH [OF s, of "[]"] sp show ?thesis
      by (simp add: space_isWhiteSpace)
  next
    case False
    with c have "\<not> isWhiteSpace c" by blast
    with False Cons.IH [OF s, of "w @ [c]"] sp show ?thesis by simp
  qed
qed

lemma join_wrapText:
  assumes "spacesOnly text"
  shows "join '' '' (wrapText text maxChars) = normalizeWhitespace text"
proof (cases "text = []")
  case True
  then show ?thesis by (simp add: wrapText_def normalizeWhitespace_def)
next
  case False
  obtain y ys where sp: "split CHR '' '' text = y # ys"
    using split_nonempty [of "CHR '' ''" "text"] by (cases "split CHR '' '' text") auto
  have "tidy []" by (simp add: tidy_def)
  from join_wrapTextLoop [OF split_noWhiteSpace [OF assms] this, of maxChars "[]"]
  have "join '' '' (wrapText text maxChars)
      = join '' '' (filter (\<lambda>w. w \<noteq> []) (split CHR '' '' text))"
    using False by (simp add: wrapText_def)
  also have "\<dots> = join '' '' (splitWhitespace [] text)"
    using splitWhitespace_split [OF assms, of "[]"] sp by simp
  finally show ?thesis by (simp add: normalizeWhitespace_def)
qed

lemma join_wrapTextToWidth_measured:
  assumes "0 < maxWidth"
  shows "join '' '' (wrapTextToWidth text maxWidth (Some m) (Some f)) = normalizeWhitespace text"
proof (cases "text = []")
  case True
  then show ?thesis by (simp add: wrapTextToWidth_def normalizeWhitespace_def)
next
  case False
  with assms join_wrapWidthLoop [OF splitWhitespace_nonempty, of "m f" maxWidth "[]" "text" "[]" "[]"]
  show ?thesis by (simp add: wrapTextToWidth_def normalizeWhitespace_def)
qed

lemma join_wrapTextToWidth_spaces:
  assumes "spacesOnly text"
  shows "join '' '' (wrapTextToWidth text maxWidth ctx fnt) = normalizeWhitespace text"
proof (cases "ctx \<noteq> None \<and> fnt \<noteq> None \<and> 0 < maxWidth")
  case True
  then obtain m f where "ctx = Some m" "fnt = Some f" by auto
  with True join_wrapTextToWidth_measured [of maxWidth "text" m f] show ?thesis by simp
next
  case False
  then have "wrapTextToWidth text maxWidth ctx fnt = wrapText text 22"
    by (auto simp: wrapTextToWidth_def wrapText_def split: option.splits)
  with join_wrapText [OF assms, of 22] show ?thesis by simp
qed

lemma splitWhitespace_break:
  "isWhiteSpace c \<Longrightarrow> splitWhitespace w (s @ c # t) = splitWhitespace w s @ splitWhitespace [] t"
  by (induction s arbitrary: w) simp_all

lemma splitWhitespace_trimStart: "splitWhitespace [] (trimStart s) = splitWhitespace [] s"
  unfolding trimStart_def by (induction s) simp_all

lemma splitWhitespace_snoc_space:
  "isWhiteSpace c \<Longrightarrow> splitWhitespace w (s @ [c]) = splitWhitespace w s"
  using splitWhitespace_break [of c w s "[]"] by simp

lemma splitWhitespace_dropWhile_rev:
  "splitWhitespace w (rev (dropWhile isWhiteSpace xs)) = splitWhitespace w (rev xs)"
  by (induction xs) (simp_all add: splitWhitespace_snoc_space)

lemma splitWhitespace_trimEnd: "splitWhitespace w (trimEnd s) = splitWhitespace w s"
  unfolding trimEnd_def using splitWhitespace_dropWhile_rev [of w "rev s"] by simp

lemma splitWhitespace_trim: "splitWhitespace [] (trim s) = splitWhitespace [] s"
  by (simp add: trim_def splitWhitespace_trimEnd splitWhitespace_trimStart)

lemma splitWhitespace_join:
  "splitWhitespace [] (join '' '' xs) = concat (map (splitWhitespace []) xs)"
proof (induction xs rule: induct_list012)
  case 1
  show ?case by simp
next
  case (2 x)
  show ?case by simp
next
  case (3 x y zs)
  have "splitWhitespace [] (x @ CHR '' '' # join '' '' (y # zs))
      = splitWhitespace [] x @ splitWhitespace [] (join '' '' (y # zs))"
    by (rule splitWhitespace_break) (rule space_isWhiteSpace)
  with 3 show ?case by simp
qed

lemma join_split: "join [sep] (split sep s) = s"
proof (induction s)
  case Nil
  show ?case by simp
next
  case (Cons c s)
  obtain y ys where sp: "split sep s = y # ys"
    using split_nonempty [of sep s] by (cases "split sep s") auto
  with Cons show ?case by (cases ys) auto
qed

lemma words_wrapTextLoop:
  "concat (map (splitWhitespace []) (wrapTextLoop maxChars ws lines current))
     = concat (map (splitWhitespace []) (lines @ current # ws))"
proof (induction ws arbitrary: lines current)
  case Nil
  show ?case by simp
next
  case (Cons w ws)
  have t: "splitWhitespace [] (trim (current @ CHR '' '' # w))
      = splitWhitespace [] current @ splitWhitespace [] w"
    using splitWhitespace_break [OF space_isWhiteSpace, of "[]" current w]
    by (simp add: splitWhitespace_trim)
  show ?case
    using Cons.IH [of lines "trim (current @ CHR '' '' # w)"]
      Cons.IH [of "lines @ [current]" w] Cons.IH [of lines w]
    by (simp add: t)
qed

lemma words_wrapText:
  "normalizeWhitespace (join '' '' (wrapText text maxChars)) = normalizeWhitespace text"
proof (cases "text = []")
  case True
  then show ?thesis by (simp add: wrapText_def)
next
  case False
  have "concat (map (splitWhitespace []) (wrapText text maxChars))
      = concat (map (splitWhitespace []) (split CHR '' '' text))"
    using False words_wrapTextLoop [of maxChars "split CHR '' '' text" "[]" "[]"]
    by (simp add: wrapText_def)
  also have "\<dots> = splitWhitespace [] (join '' '' (split CHR '' '' text))"
    by (simp add: splitWhitespace_join)
  also have "\<dots> = splitWhitespace [] text"
    using join_split [of "CHR '' ''" "text"] by simp
  finally show ?thesis
    by (simp add: normalizeWhitespace_def splitWhitespace_join)
qed

lemma splitWhitespace_word:
  "noWhiteSpace w \<Longrightarrow> splitWhitespace acc w = (if acc @ w = [] then [] else [acc @ w])"
  by (induction w arbitrary: acc) (simp_all add: noWhiteSpace_def)

lemma splitWhitespace_noWhiteSpace:
  "noWhiteSpace acc \<Longrightarrow> list_all noWhiteSpace (splitWhitespace acc s)"
  by (induction s arbitrary: acc) (simp_all add: noWhiteSpace_def)

lemma splitWhitespace_words:
  "list_all noWhiteSpace ws \<Longrightarrow> list_all (\<lambda>w. w \<noteq> []) ws \<Longrightarrow>
   concat (map (splitWhitespace []) ws) = ws"
  by (induction ws) (simp_all add: splitWhitespace_word)

lemma normalizeWhitespace_idem:
  "normalizeWhitespace (normalizeWhitespace text) = normalizeWhitespace text"
proof -
  have "noWhiteSpace []" by (simp add: noWhiteSpace_def)
  from splitWhitespace_words [OF splitWhitespace_noWhiteSpace [OF this] splitWhitespace_nonempty]
  show ?thesis by (simp add: normalizeWhitespace_def splitWhitespace_join)
qed

lemma words_wrapTextToWidth:
  "normalizeWhitespace (join '' '' (wrapTextToWidth text maxWidth ctx fnt)) = normalizeWhitespace text"
proof (cases "ctx \<noteq> None \<and> fnt \<noteq> None \<and> 0 < maxWidth")
  case True
  then obtain m f where "ctx = Some m" "fnt = Some f" by auto
  with True join_wrapTextToWidth_measured [of maxWidth "text" m f]
  have "join '' '' (wrapTextToWidth text maxWidth ctx fnt) = normalizeWhitespace text" by simp
  moreover note normalizeWhitespace_idem [of "text"]
  ultimately show ?thesis by simp
next
  case False
  then have "wrapTextToWidth text maxWidth ctx fnt = wrapText text 22"
    by (auto simp: wrapTextToWidth_def wrapText_def split: option.splits)
  with words_wrapText [of "text" 22] show ?thesis by simp
qed

text \<open>
  A measuring context for the examples: every character is \<open>0.6\<close> times the font size
  wide. It is the width the code assumes for a text when no measuring context exists,
  \<^verbatim>\<open>length * fontSize * 0.6\<close>, without the rounding of the products.
\<close>

definition heuristicWidth :: measureContext where
  "heuristicWidth f t = real (length t) * fontSize f * (6 / 10)"

lemmas wrap_eval = wrapText_def wrapTextToWidth_def normalizeWhitespace_def trim_def
  trimStart_def trimEnd_def isWhiteSpace_def heuristicWidth_def spacesOnly_def

text \<open>
  C7, as the code has it. In both modes and for every text and budget, the lines joined
  by single spaces have the words of the input, in their order: normalizing the
  whitespace of the joined lines gives the whitespace-normalized input. The joined lines
  are the normalized input itself for \<open>wrapTextToWidth\<close> measured against a positive
  width, and for \<open>wrapText\<close> (and \<open>wrapTextToWidth\<close> in any mode) on a text whose only
  whitespace is the space character.
\<close>

theorem wrapping_keeps_words:
  "normalizeWhitespace (join '' '' (wrapText text maxChars)) = normalizeWhitespace text
   \<and> normalizeWhitespace (join '' '' (wrapTextToWidth text maxWidth ctx fnt))
       = normalizeWhitespace text
   \<and> (0 < maxWidth \<longrightarrow>
      join '' '' (wrapTextToWidth text maxWidth (Some m) (Some f)) = normalizeWhitespace text)
   \<and> (spacesOnly text \<longrightarrow>
        join '' '' (wrapText text maxChars) = normalizeWhitespace text
        \<and> join '' '' (wrapTextToWidth text maxWidth ctx fnt) = normalizeWhitespace text)"
  using join_wrapTextToWidth_measured [of maxWidth "text" m f]
    join_wrapText [of "text" maxChars] join_wrapTextToWidth_spaces [of "text" maxWidth ctx fnt]
    words_wrapText [of "text" maxChars] words_wrapTextToWidth [of "text" maxWidth ctx fnt]
  by blast

theorem wrapping_keeps_words_witness:
  "(0::real) < 60 \<and> spacesOnly ''the  quick brown fox ''
   \<and> wrapTextToWidth ''the  quick brown fox '' 60 (Some heuristicWidth)
         (Some \<lparr> weight = 700, fontSize = 10 \<rparr>) = [''the quick'', ''brown fox'']
   \<and> wrapText ''the  quick brown fox '' 9 = [''the quick'', ''brown fox'']
   \<and> wrapTextToWidth ''the  quick brown fox '' 60 None None = [''the quick brown fox'']
   \<and> normalizeWhitespace ''the  quick brown fox '' = ''the quick brown fox''
   \<and> normalizeWhitespace (join '' '' (wrapText ''the  quick brown fox '' 9))
       = normalizeWhitespace ''the  quick brown fox ''
   \<and> normalizeWhitespace (join '' '' (wrapTextToWidth ''the  quick brown fox '' 60 None None))
       = normalizeWhitespace ''the  quick brown fox ''
   \<and> join '' '' (wrapTextToWidth ''the  quick brown fox '' 60 (Some heuristicWidth)
         (Some \<lparr> weight = 700, fontSize = 10 \<rparr>)) = normalizeWhitespace ''the  quick brown fox ''
   \<and> join '' '' (wrapText ''the  quick brown fox '' 9) = normalizeWhitespace ''the  quick brown fox ''
   \<and> join '' '' (wrapTextToWidth ''the  quick brown fox '' 60 None None)
       = normalizeWhitespace ''the  quick brown fox ''"
  using wrapping_keeps_words [of "''the  quick brown fox ''" 9 60 None None heuristicWidth
      "\<lparr> weight = 700, fontSize = 10 \<rparr>"]
  by (simp add: wrap_eval)

text \<open>
  C7 as stated fails on the code for a text with whitespace other than spaces:
  \<open>wrapText\<close> splits at spaces only and keeps a tab inside a line, so the joined lines
  are not the normalized text, which has a space in its place (as the width mode has).
  No word is lost: normalizing the joined lines gives the normalized text.
\<close>

theorem wrapText_counterexample:
  "join '' '' (wrapText [CHR ''a'', CHR 0x09, CHR ''b''] 22) = [CHR ''a'', CHR 0x09, CHR ''b'']
   \<and> join '' '' (wrapTextToWidth [CHR ''a'', CHR 0x09, CHR ''b''] 100 None None)
       = [CHR ''a'', CHR 0x09, CHR ''b'']
   \<and> normalizeWhitespace [CHR ''a'', CHR 0x09, CHR ''b''] = ''a b''
   \<and> normalizeWhitespace (join '' '' (wrapText [CHR ''a'', CHR 0x09, CHR ''b''] 22)) = ''a b''
   \<and> join '' '' (wrapTextToWidth [CHR ''a'', CHR 0x09, CHR ''b''] 100 (Some heuristicWidth)
         (Some \<lparr> weight = 700, fontSize = 10 \<rparr>)) = ''a b''"
  by (simp add: wrap_eval)


section \<open>ellipsizeToWidth\<close>




















section \<open>JavaScript numbers\<close>

text \<open>
  The layout code computes with JavaScript numbers, the binary64 values of IEEE 754:
  every arithmetic operation gives the exact result rounded to the nearest representable
  number, a tie going to the even significand. \<open>fl\<close> is this rounding for a significand
  of 53 bits: \<open>\<lfloor>log 2 \<bar>x\<bar>\<rfloor>\<close> is the binary exponent of \<open>x\<close>, and the representable numbers
  around \<open>x\<close> are the integer multiples of 2 to the power of that exponent minus 52. The
  bounded exponent of binary64 is not modelled: a result of magnitude \<open>2 ^ 1024\<close> or
  more (\<^verbatim>\<open>Infinity\<close> in JavaScript), or a subnormal one below \<open>1 / 2 ^ 1022\<close>, is rounded
  like any other, so the definitions are those of the code as long as no result leaves
  the range of the normal numbers.
\<close>

definition roundEven :: "real \<Rightarrow> int" where
  "roundEven x =
     (if x - of_int \<lfloor>x\<rfloor> < 1 / 2 then \<lfloor>x\<rfloor>
      else if 1 / 2 < x - of_int \<lfloor>x\<rfloor> then \<lfloor>x\<rfloor> + 1
      else if even \<lfloor>x\<rfloor> then \<lfloor>x\<rfloor> else \<lfloor>x\<rfloor> + 1)"

definition fl :: "real \<Rightarrow> real" where
  "fl x =
     (if x = 0 then 0
      else of_int (roundEven (x / 2 powr (of_int \<lfloor>log 2 \<bar>x\<bar>\<rfloor> - 52)))
             * 2 powr (of_int \<lfloor>log 2 \<bar>x\<bar>\<rfloor> - 52))"


definition fsub :: "real \<Rightarrow> real \<Rightarrow> real" where
  "fsub x y = fl (x - y)"

definition fmul :: "real \<Rightarrow> real \<Rightarrow> real" where
  "fmul x y = fl (x * y)"

definition fdiv :: "real \<Rightarrow> real \<Rightarrow> real" where
  "fdiv x y = fl (x / y)"

text \<open>
  Rounding is odd and monotone, commutes with doubling, leaves representable numbers
  (among them the integers up to \<open>2 ^ 53\<close>) as they are, and moves a number by at most
  its \<open>2 ^ 53\<close>th part.
\<close>

lemma roundEven_int: "roundEven (of_int k) = k"
  by (simp add: roundEven_def)


lemma roundEven_bounds: "\<lfloor>x\<rfloor> \<le> roundEven x" "roundEven x \<le> \<lfloor>x\<rfloor> + 1"
  by (simp_all add: roundEven_def)

lemma roundEven_mono:
  assumes "x \<le> y"
  shows "roundEven x \<le> roundEven y"
proof (cases "\<lfloor>x\<rfloor> = \<lfloor>y\<rfloor>")
  case True
  with assms show ?thesis by (auto simp: roundEven_def)
next
  case False
  with assms have "\<lfloor>x\<rfloor> < \<lfloor>y\<rfloor>" by (simp add: floor_mono order.not_eq_order_implies_strict)
  with roundEven_bounds(2) [of x] roundEven_bounds(1) [of y] show ?thesis by linarith
qed


lemma floor_log2: 
  assumes "x \<noteq> 0"
  shows "2 powr (of_int \<lfloor>log 2 \<bar>x\<bar>\<rfloor>) \<le> \<bar>x\<bar>" "\<bar>x\<bar> < 2 powr (of_int \<lfloor>log 2 \<bar>x\<bar>\<rfloor> + 1)"
proof -
  have "0 < \<bar>x\<bar>" using assms by simp
  from floor_log_eq_powr_iff [OF this, of 2 "\<lfloor>log 2 \<bar>x\<bar>\<rfloor>"]
  show "2 powr (of_int \<lfloor>log 2 \<bar>x\<bar>\<rfloor>) \<le> \<bar>x\<bar>" "\<bar>x\<bar> < 2 powr (of_int \<lfloor>log 2 \<bar>x\<bar>\<rfloor> + 1)"
    by simp_all
qed

lemma floor_log2_eq:
  assumes "2 powr (of_int e) \<le> \<bar>x\<bar>" "\<bar>x\<bar> < 2 powr (of_int e + 1)"
  shows "\<lfloor>log 2 \<bar>x\<bar>\<rfloor> = e"
proof -
  have "0 < 2 powr (of_int e :: real)" by simp
  with assms(1) have "0 < \<bar>x\<bar>" by linarith
  from floor_log_eq_powr_iff [OF this, of 2 e] assms show ?thesis by simp
qed

lemma fl_eval:
  assumes "2 powr (of_int e) \<le> \<bar>x\<bar>" "\<bar>x\<bar> < 2 powr (of_int e + 1)"
  shows "fl x = of_int (roundEven (x / 2 powr (of_int e - 52))) * 2 powr (of_int e - 52)"
proof -
  have "0 < 2 powr (of_int e :: real)" by simp
  with assms(1) have "x \<noteq> 0" by auto
  then show ?thesis by (simp add: fl_def floor_log2_eq [OF assms])
qed

lemma fl_zero: "fl 0 = 0"
  by (simp add: fl_def)


lemma fl_double: "fl (2 * x) = 2 * fl x"
proof (cases "x = 0")
  case True
  then show ?thesis by (simp add: fl_def)
next
  case False
  define e where "e = \<lfloor>log 2 \<bar>x\<bar>\<rfloor>"
  have b: "2 powr (of_int e) \<le> \<bar>x\<bar>" "\<bar>x\<bar> < 2 powr (of_int e + 1)"
    using floor_log2 [OF False] by (simp_all add: e_def)
  have p: "2 powr (of_int (e + 1)) = 2 * 2 powr (of_int e :: real)"
    by (simp add: powr_add)
  have p2: "2 powr (of_int (e + 1) + 1) = 2 * 2 powr (of_int e + 1 :: real)"
    by (simp add: powr_add)
  have b2: "2 powr (of_int (e + 1)) \<le> \<bar>2 * x\<bar>" "\<bar>2 * x\<bar> < 2 powr (of_int (e + 1) + 1)"
    using b unfolding p p2 by (simp_all add: abs_mult)
  have q: "2 powr (of_int (e + 1) - 52) = 2 * 2 powr (of_int e - 52 :: real)"
    by (simp add: powr_diff powr_add)
  show ?thesis
    unfolding fl_eval [OF b] fl_eval [OF b2] q by simp
qed




lemma powr_int_nonneg: "0 \<le> j \<Longrightarrow> (2::real) powr (of_int j) = of_int (2 ^ nat j)"
  by (simp add: powr_realpow [symmetric])

lemma fl_representable_less:
  assumes "\<bar>m\<bar> < 2 ^ 53"
  shows "fl (of_int m * 2 powr (of_int k)) = of_int m * 2 powr (of_int k)"
proof (cases "m = 0")
  case True
  then show ?thesis by (simp add: fl_def)
next
  case False
  define x :: real where "x = of_int m * 2 powr (of_int k)"
  define e where "e = \<lfloor>log 2 \<bar>x\<bar>\<rfloor>"
  have x0: "x \<noteq> 0" using False by (simp add: x_def)
  have b: "2 powr (of_int e) \<le> \<bar>x\<bar>" "\<bar>x\<bar> < 2 powr (of_int e + 1)"
    using floor_log2 [OF x0] by (simp_all add: e_def)
  have ax: "\<bar>x\<bar> = of_int \<bar>m\<bar> * 2 powr (of_int k)"
    by (simp add: x_def abs_mult)
  have f: "fl x = of_int (roundEven (x / 2 powr (of_int e - 52))) * 2 powr (of_int e - 52)"
    using x0 by (simp add: fl_def e_def)
  have xq: "x / 2 powr (of_int e - 52) = of_int m * 2 powr (of_int (k + 52 - e))"
    by (simp add: x_def powr_diff powr_add)
  from assms have "(of_int \<bar>m\<bar> :: real) < 2 ^ 53"
    by (metis of_int_less_numeral_power_cancel_iff)
  then have "\<bar>x\<bar> < 2 ^ 53 * 2 powr (of_int k)"
    unfolding ax by (simp add: mult_strict_right_mono)
  also have "\<dots> = 2 powr (of_int (k + 53))" by (simp add: powr_add)
  finally have "2 powr (of_int e) < (2::real) powr (of_int (k + 53))" using b(1) by linarith
  then have "e < k + 53" by simp
  then have j: "0 \<le> k + 52 - e" by simp
  have "x / 2 powr (of_int e - 52) = of_int (m * 2 ^ nat (k + 52 - e))"
    unfolding xq powr_int_nonneg [OF j] by simp
  then have "fl x = of_int (m * 2 ^ nat (k + 52 - e)) * 2 powr (of_int e - 52)"
    unfolding f by (simp only: roundEven_int)
  also have "\<dots> = x / 2 powr (of_int e - 52) * 2 powr (of_int e - 52)"
    unfolding xq powr_int_nonneg [OF j] by simp
  also have "\<dots> = x" by simp
  finally show ?thesis by (simp add: x_def)
qed

lemma fl_representable:
  assumes "\<bar>m\<bar> \<le> 2 ^ 53"
  shows "fl (of_int m * 2 powr (of_int k)) = of_int m * 2 powr (of_int k)"
proof (cases "\<bar>m\<bar> = 2 ^ 53")
  case True
  then have "m = 2 ^ 53 \<or> m = - (2 ^ 53)" by linarith
  then have m: "m = 2 * (m div 2)" and h: "\<bar>m div 2\<bar> < 2 ^ 53" by auto
  have e: "of_int m * 2 powr (of_int k) = 2 * (of_int (m div 2) * 2 powr (of_int k) :: real)"
    by (subst m) simp
  show ?thesis
    unfolding e fl_double fl_representable_less [OF h, of k] ..
next
  case False
  with assms have "\<bar>m\<bar> < 2 ^ 53" by simp
  then show ?thesis by (rule fl_representable_less)
qed

lemma fl_idem: "fl (fl x) = fl x"
proof (cases "x = 0")
  case True
  then show ?thesis by (simp add: fl_def)
next
  case False
  define e where "e = \<lfloor>log 2 \<bar>x\<bar>\<rfloor>"
  define y :: real where "y = x / 2 powr (of_int e - 52)"
  have b: "2 powr (of_int e) \<le> \<bar>x\<bar>" "\<bar>x\<bar> < 2 powr (of_int e + 1)"
    using floor_log2 [OF False] by (simp_all add: e_def)
  have f: "fl x = of_int (roundEven y) * 2 powr (of_int (e - 52))"
    using False by (simp add: fl_def e_def y_def)
  have "\<bar>y\<bar> = \<bar>x\<bar> / 2 powr (of_int e - 52)" by (simp add: y_def)
  also have "\<dots> < 2 powr (of_int e + 1) / 2 powr (of_int e - 52)"
    using b(2) by (simp add: divide_strict_right_mono)
  also have "\<dots> = 2 ^ 53" by (simp add: powr_diff powr_add)
  finally have y: "- (2 ^ 53) \<le> y" "y \<le> 2 ^ 53" by (simp_all add: abs_less_iff)
  have "roundEven y \<le> roundEven (of_int (2 ^ 53))"
    by (rule roundEven_mono) (use y in simp)
  moreover have "roundEven (of_int (- (2 ^ 53))) \<le> roundEven y"
    by (rule roundEven_mono) (use y in simp)
  ultimately have "\<bar>roundEven y\<bar> \<le> 2 ^ 53"
    unfolding roundEven_int by simp
  from fl_representable [OF this, of "e - 52"] show ?thesis
    unfolding f .
qed











section \<open>The procedural layout of generateSvg\<close>

text \<open>
  Every \<^verbatim>\<open>const\<close> and \<^verbatim>\<open>let\<close> of \<open>generateSvg\<close>, in the order of the source, as a
  function of what it depends on: the canvas \<open>width\<close> and \<open>height\<close>, the number of
  selected logos, the texts and the measuring context. Every operation is the rounded
  one; a decimal literal such as \<^verbatim>\<open>1.1\<close> is the number nearest to it, \<open>fl (11 / 10)\<close>,
  and \<^verbatim>\<open>Math.SQRT2\<close> is \<open>fl (sqrt 2)\<close>; integers are exact.
\<close>

definition scale :: "real \<Rightarrow> real" where
  "scale width = fdiv width 1920"
























definition logoEdgeMarginY :: "real \<Rightarrow> real" where
  "logoEdgeMarginY width = fmul 55 (scale width)"

definition logoGap :: "real \<Rightarrow> nat \<Rightarrow> real" where
  "logoGap width logoCount = fmul (if logoCount = 3 then 18 else 24) (scale width)"

text \<open>The quantities of the branch \<^verbatim>\<open>if (logoCount > 1)\<close>.\<close>

definition maxStackHeight :: "real \<Rightarrow> real \<Rightarrow> real" where
  "maxStackHeight width height = max 0 (fsub height (fmul 2 (logoEdgeMarginY width)))"

definition fitRadius :: "real \<Rightarrow> real \<Rightarrow> nat \<Rightarrow> real" where
  "fitRadius width height logoCount =
     fdiv (fsub (maxStackHeight width height)
             (fmul (fsub (real logoCount) 1) (logoGap width logoCount)))
       (fmul 2 (real logoCount))"



















subsection \<open>The logo stack\<close>




lemma fl_twice: "fl (2 * fl x) = 2 * fl x" "fl (fl x * 2) = 2 * fl x"
proof -
  show a: "fl (2 * fl x) = 2 * fl x" by (simp add: fl_double fl_idem)
  have "fl x * 2 = 2 * fl x" by simp
  then show "fl (fl x * 2) = 2 * fl x" using a by (simp only:)
qed


lemma fl_max: "fl (max (fl a) (fl b)) = max (fl a) (fl b)"
  by (simp add: max_def fl_idem)



lemma fitRadius_fl: "fl (fitRadius width height n) = fitRadius width height n"
  by (simp add: fitRadius_def fdiv_def fl_idem)


































subsection \<open>Doubling the resolution\<close>








































end
